theory Spec2Isabelle
  imports Main "HOL-Library.Word"
begin

text \<open>
  The versioned ledger of package \<^verbatim>\<open>ledger\<close>: the history of root hashes
  (\<^verbatim>\<open>type history\<close>, with Go's \<^verbatim>\<open>container/list\<close>) and the operations of
  \<^verbatim>\<open>smtLedger\<close> in \<^verbatim>\<open>ledger.go\<close>. One goroutine at a time: the locks are left out, and
  every operation takes the ledger state and returns the new one beside its results.
\<close>

section \<open>Go values\<close>

text \<open>
  A Go \<^verbatim>\<open>[]byte\<close> is a list of 8-bit words and a Go \<^verbatim>\<open>string\<close> is a list of
  characters (an Isabelle character is one byte). The conversions \<^verbatim>\<open>string(b)\<close> and
  \<^verbatim>\<open>[]byte(s)\<close> copy the bytes one by one. A nil slice and an empty slice are both
  the empty list: the ledger only takes their length and their content.
\<close>

type_synonym byte = "8 word"
type_synonym bytes = "byte list"

definition string_of_bytes :: "bytes \<Rightarrow> string" where
  "string_of_bytes b = map (\<lambda>w. char_of (unat w)) b"

text \<open>\<^verbatim>\<open>func stringToBytes(val string) []byte { return []byte(val) }\<close>\<close>

definition stringToBytes :: "string \<Rightarrow> bytes" where
  "stringToBytes val = map of_char val"

section \<open>The standard base64 encoding\<close>

text \<open>
  \<^verbatim>\<open>base64.StdEncoding\<close> of Go's standard library: the alphabet of RFC 4648, padding
  with \<^verbatim>\<open>=\<close>, not strict. \<^verbatim>\<open>EncodeToString\<close> turns every three bytes into four
  characters and pads the last group. \<^verbatim>\<open>DecodeString\<close> skips carriage returns and
  line feeds, and fails with a \<^verbatim>\<open>CorruptInputError\<close> carrying the offset of the
  offending character; the bytes it returns beside an error are dropped here, as
  every caller in the ledger drops them.
\<close>

definition encodeStd :: string where
  "encodeStd = ''ABCDEFGHIJKLMNOPQRSTUVWXYZabcdefghijklmnopqrstuvwxyz0123456789+/''"

definition padChar :: char where
  "padChar = CHR ''=''"

definition enc_char :: "nat \<Rightarrow> char" where
  "enc_char v = encodeStd ! (v mod 64)"

definition group_val :: "byte \<Rightarrow> byte \<Rightarrow> byte \<Rightarrow> nat" where
  "group_val a b c = unat a * 65536 + unat b * 256 + unat c"

fun EncodeToString :: "bytes \<Rightarrow> string" where
  "EncodeToString (a # b # c # rest) =
     (let val = group_val a b c in
      enc_char (val div 2 ^ 18) # enc_char (val div 2 ^ 12) #
      enc_char (val div 2 ^ 6) # enc_char val # EncodeToString rest)"
| "EncodeToString [a, b] =
     (let val = group_val a b 0 in
      [enc_char (val div 2 ^ 18), enc_char (val div 2 ^ 12), enc_char (val div 2 ^ 6), padChar])"
| "EncodeToString [a] =
     (let val = group_val a 0 0 in
      [enc_char (val div 2 ^ 18), enc_char (val div 2 ^ 12), padChar, padChar])"
| "EncodeToString [] = []"

fun index_of :: "'a \<Rightarrow> 'a list \<Rightarrow> nat option" where
  "index_of c [] = None"
| "index_of c (x # xs) = (if x = c then Some 0 else map_option Suc (index_of c xs))"

text \<open>The decode map: the position of a character in the alphabet, if it has one.\<close>

definition decodeMap :: "char \<Rightarrow> nat option" where
  "decodeMap c = index_of c encodeStd"

definition is_newline :: "char \<Rightarrow> bool" where
  "is_newline c = (c = CHR 0x0A \<or> c = CHR 0x0D)"

definition skip_newlines :: "string \<Rightarrow> string" where
  "skip_newlines s = dropWhile is_newline s"

text \<open>
  The bytes of one quantum: \<open>dbuf\<close> holds the 6-bit values read so far (2, 3 or 4 of
  them), which give 1, 2 or 3 bytes.
\<close>

definition quantum :: "nat list \<Rightarrow> bytes" where
  "quantum dbuf =
     (let d = dbuf @ replicate (4 - length dbuf) 0;
          val = d ! 0 * 2 ^ 18 + d ! 1 * 2 ^ 12 + d ! 2 * 2 ^ 6 + d ! 3
      in take (length dbuf - 1) [of_nat (val div 2 ^ 16), of_nat (val div 2 ^ 8), of_nat val])"

text \<open>
  The decoding loop over the rest of the input; \<open>n\<close> is the length of the whole input,
  so the offset of the first character of \<open>rest\<close> is \<open>n - length rest\<close>.
\<close>

fun decode :: "nat \<Rightarrow> nat list \<Rightarrow> bytes \<Rightarrow> string \<Rightarrow> nat + bytes" where
  "decode n dbuf out [] = (if dbuf = [] then Inr out else Inl (n - length dbuf))"
| "decode n dbuf out (c # rest) =
     (let si = n - Suc (length rest) in
      case decodeMap c of
        Some v \<Rightarrow>
          if length dbuf = 3 then decode n [] (out @ quantum (dbuf @ [v])) rest
          else decode n (dbuf @ [v]) out rest
      | None \<Rightarrow>
          if is_newline c then decode n dbuf out rest
          else if c \<noteq> padChar then Inl si
          else if length dbuf < 2 then Inl si
          else if length dbuf = 2 then
            (case skip_newlines rest of
               [] \<Rightarrow> Inl n
             | c2 # rest2 \<Rightarrow>
                 if c2 \<noteq> padChar then Inl (n - Suc (Suc (length rest2)))
                 else (case skip_newlines rest2 of
                         [] \<Rightarrow> Inr (out @ quantum dbuf)
                       | g # rest3 \<Rightarrow> Inl (n - Suc (length rest3))))
          else
            (case skip_newlines rest of
               [] \<Rightarrow> Inr (out @ quantum dbuf)
             | g # rest3 \<Rightarrow> Inl (n - Suc (length rest3))))"

definition DecodeString :: "string \<Rightarrow> nat + bytes" where
  "DecodeString s = decode (length s) [] [] s"

section \<open>Errors\<close>

text \<open>
  The errors the ledger returns: the two it makes with \<^verbatim>\<open>fmt.Errorf\<close> in
  \<^verbatim>\<open>EraseRootHash\<close>, the one it makes in \<^verbatim>\<open>GetAllPrevious\<close>, the decoder's
  \<^verbatim>\<open>CorruptInputError\<close>, whatever the backing structure returns, and the list built
  by \<^verbatim>\<open>multierror.Append\<close>.
\<close>

datatype error =
    NotFound string
  | InvalidOperation
  | DecodeError nat
  | KeyReversalMiss bytes
  | BackingStoreError string
  | MultiError "error list"

fun errors_of :: "error \<Rightarrow> error list" where
  "errors_of (MultiError es) = es"
| "errors_of e = [e]"

text \<open>
  \<^verbatim>\<open>multierror.Append(err, e)\<close>: a nil \<open>err\<close> starts a new list, a list is extended,
  any other error becomes the first entry; a list given as \<open>e\<close> is flattened.
\<close>

fun multierror_Append :: "error option \<Rightarrow> error \<Rightarrow> error" where
  "multierror_Append None e = MultiError (errors_of e)"
| "multierror_Append (Some (MultiError es)) e = MultiError (es @ errors_of e)"
| "multierror_Append (Some x) e = MultiError (x # errors_of e)"

datatype panic = IndexOutOfRange

section \<open>The history\<close>

text \<open>
  A \<^verbatim>\<open>*list.Element\<close> is a heap cell: its address is its identity, and its
  \<^verbatim>\<open>Value\<close> (the raw root bytes) is never written after \<^verbatim>\<open>PushBack\<close> made it. The
  embedded \<^verbatim>\<open>*list.List\<close> is the sequence of the elements linked into it; an element
  that was removed, or never linked, has no neighbours.
\<close>

record element =
  addr :: nat
  Value :: bytes

fun list_Next :: "element list \<Rightarrow> element \<Rightarrow> element option" where
  "list_Next [] e = None"
| "list_Next [x] e = None"
| "list_Next (x # y # r) e = (if addr x = addr e then Some y else list_Next (y # r) e)"

fun list_Prev :: "element list \<Rightarrow> element \<Rightarrow> element option" where
  "list_Prev [] e = None"
| "list_Prev [x] e = None"
| "list_Prev (x # y # r) e =
     (if addr x = addr e then None
      else if addr y = addr e then Some x
      else list_Prev (y # r) e)"

fun list_Remove :: "element list \<Rightarrow> element \<Rightarrow> element list" where
  "list_Remove [] e = []"
| "list_Remove (x # r) e = (if addr x = addr e then r else x # list_Remove r e)"

text \<open>
  \<^verbatim>\<open>type history struct { *list.List; index map[string][]*list.Element; lock }\<close>.
  \<open>next_addr\<close> is the address the next \<^verbatim>\<open>PushBack\<close> allocates.
\<close>

record history =
  List :: "element list"
  index :: "string \<Rightarrow> element list option"
  next_addr :: nat

definition newHistory :: history where
  "newHistory = \<lparr>List = [], index = Map.empty, next_addr = 0\<rparr>"

text \<open>\<^verbatim>\<open>h.index[hash]\<close>: a missing key reads as the nil slice.\<close>

definition history_Get :: "history \<Rightarrow> string \<Rightarrow> element list" where
  "history_Get h hash = (case index h hash of None \<Rightarrow> [] | Some es \<Rightarrow> es)"

definition hashToString :: "bytes \<Rightarrow> string" where
  "hashToString h = EncodeToString h"

definition history_Put :: "history \<Rightarrow> bytes \<Rightarrow> history \<times> element \<times> string" where
  "history_Put h key =
     (let result = \<lparr>addr = next_addr h, Value = key\<rparr>;
          encodedKey = hashToString key
      in (\<lparr>List = List h @ [result],
           index = (index h)(encodedKey \<mapsto> history_Get h encodedKey @ [result]),
           next_addr = Suc (next_addr h)\<rparr>,
          result, encodedKey))"

definition history_Delete :: "history \<Rightarrow> string \<Rightarrow> history" where
  "history_Delete h key = h\<lparr>index := (index h)(key := None)\<rparr>"

definition history_Remove :: "history \<Rightarrow> element \<Rightarrow> history" where
  "history_Remove h e = h\<lparr>List := list_Remove (List h) e\<rparr>"

definition Next :: "history \<Rightarrow> element \<Rightarrow> element option" where
  "Next h e = list_Next (List h) e"

definition Prev :: "history \<Rightarrow> element \<Rightarrow> element option" where
  "Prev h e = list_Prev (List h) e"

section \<open>The ledger\<close>

text \<open>\<^verbatim>\<open>trimLeadingZeroes\<close>: the loop leaves in \<open>i\<close> the last index it assigned.\<close>

fun range_loop :: "nat \<Rightarrow> nat \<Rightarrow> bytes \<Rightarrow> nat" where
  "range_loop i k [] = i"
| "range_loop i k (b # bs) = (if b \<noteq> 0 then k else range_loop k (Suc k) bs)"

definition trimLeadingZeroes :: "bytes \<Rightarrow> bytes" where
  "trimLeadingZeroes in' = drop (range_loop 0 0 in') in'"

text \<open>
  The collaborators of the ledger that its two source files only call: the backing
  structure \<^verbatim>\<open>smt\<close> (its state is \<open>'t\<close>), the key cache \<^verbatim>\<open>byteCache\<close> (its state is
  \<open>'c\<close>), the 64-bit digest of \<^verbatim>\<open>murmur3\<close> and the width of the array type
  \<^verbatim>\<open>hash\<close>. They are parameters: every operation of a collaborator takes its state
  and returns the new one beside its Go results, and an error result is \<open>Some\<close>.
\<close>

record ('t, 'c) deps =
  newSMT :: 't
  smt_Update :: "'t \<Rightarrow> bytes list \<Rightarrow> bytes list \<Rightarrow> 't \<times> bytes \<times> error option"
  smt_Delete :: "'t \<Rightarrow> bytes \<Rightarrow> 't \<times> bytes \<times> error option"
  smt_GetPreviousValue :: "'t \<Rightarrow> bytes \<Rightarrow> bytes \<Rightarrow> 't \<times> bytes \<times> error option"
  smt_GetAllPrevious :: "'t \<Rightarrow> bytes \<Rightarrow> 't \<times> bytes list \<times> bytes list \<times> error option"
  smt_Erase :: "'t \<Rightarrow> bytes \<Rightarrow> bytes list \<Rightarrow> 't \<times> error option"
  smt_Root :: "'t \<Rightarrow> bytes"
  newCache :: 'c
  cache_Set :: "'c \<Rightarrow> bytes \<Rightarrow> bytes list \<Rightarrow> 'c"
  cache_Get :: "'c \<Rightarrow> bytes \<Rightarrow> 'c \<times> bytes list \<times> bool"
  murmur3_Sum64 :: "bytes \<Rightarrow> bytes"
  hashLength :: nat

text \<open>\<^verbatim>\<open>type smtLedger struct { tree; history; keyCache; ... }\<close>\<close>

record ('t, 'c) smtLedger =
  tree :: 't
  history :: history
  keyCache :: 'c

definition makeOld :: "('t, 'c) deps \<Rightarrow> ('t, 'c) smtLedger" where
  "makeOld D = \<lparr>tree = newSMT D, history = newHistory, keyCache = newCache D\<rparr>"

text \<open>\<^verbatim>\<open>var h hash; copy(h[:], src)\<close>: the first bytes of \<open>src\<close>, zero-filled to the width.\<close>

definition copy_hash :: "nat \<Rightarrow> bytes \<Rightarrow> bytes" where
  "copy_hash n src = take n src @ replicate (n - length src) 0"

definition coerceKeyToHashLen :: "('t, 'c) deps \<Rightarrow> 'c \<Rightarrow> string \<Rightarrow> 'c \<times> bytes" where
  "coerceKeyToHashLen D c val =
     (let result = murmur3_Sum64 D (stringToBytes val);
          h = copy_hash (hashLength D) result
      in (cache_Set D c h [stringToBytes val], result))"

text \<open>
  The first loop of \<^verbatim>\<open>EraseRootHash\<close>: \<open>None\<close> when an occurrence has no successor,
  else the roots next to every occurrence, a missing predecessor giving the nil slice.
\<close>

fun adjacent_loop :: "history \<Rightarrow> element list \<Rightarrow> bytes list \<Rightarrow> bytes list option" where
  "adjacent_loop h [] adjacentRoots = Some adjacentRoots"
| "adjacent_loop h (o' # os) adjacentRoots =
     (case Next h o' of
        None \<Rightarrow> None
      | Some nx \<Rightarrow>
          (let prevVal = (case Prev h o' of None \<Rightarrow> [] | Some p \<Rightarrow> Value p)
           in adjacent_loop h os (adjacentRoots @ [prevVal, Value nx])))"

text \<open>
  \<^verbatim>\<open>EraseRootHash\<close> up to the call of the backing structure: the error it returns
  before that call, or the occurrences and the adjacent roots it goes on with.
\<close>

definition erase_precheck :: "history \<Rightarrow> string \<Rightarrow> error + (element list \<times> bytes list)" where
  "erase_precheck h rootHash =
     (let occurrences = history_Get h rootHash in
      if length occurrences = 0 then Inl (NotFound rootHash)
      else
        (case adjacent_loop h occurrences [] of
           None \<Rightarrow> Inl InvalidOperation
         | Some adjacentRoots \<Rightarrow> Inr (occurrences, adjacentRoots)))"

definition EraseRootHash ::
  "('t, 'c) deps \<Rightarrow> ('t, 'c) smtLedger \<Rightarrow> string \<Rightarrow> ('t, 'c) smtLedger \<times> error option" where
  "EraseRootHash D s rootHash =
     (case erase_precheck (history s) rootHash of
        Inl err \<Rightarrow> (s, Some err)
      | Inr (occurrences, adjacentRoots) \<Rightarrow>
          (case smt_Erase D (tree s) (Value (occurrences ! 0)) adjacentRoots of
             (t, Some err) \<Rightarrow> (s\<lparr>tree := t\<rparr>, Some err)
           | (t, None) \<Rightarrow>
               (s\<lparr>tree := t,
                  history := history_Delete
                    (fold (\<lambda>o' h. history_Remove h o') occurrences (history s)) rootHash\<rparr>,
                None)))"

definition Put ::
  "('t, 'c) deps \<Rightarrow> ('t, 'c) smtLedger \<Rightarrow> string \<Rightarrow> string \<Rightarrow>
   ('t, 'c) smtLedger \<times> string \<times> error option" where
  "Put D s key value =
     (case coerceKeyToHashLen D (keyCache s) key of
        (c, k) \<Rightarrow>
          (case smt_Update D (tree s) [k] [stringToBytes value] of
             (t, b, Some err) \<Rightarrow> (s\<lparr>tree := t, keyCache := c\<rparr>, [], Some err)
           | (t, b, None) \<Rightarrow>
               (case history_Put (history s) b of
                  (h, _, result) \<Rightarrow> (s\<lparr>tree := t, history := h, keyCache := c\<rparr>, result, None))))"

definition Delete ::
  "('t, 'c) deps \<Rightarrow> ('t, 'c) smtLedger \<Rightarrow> string \<Rightarrow>
   ('t, 'c) smtLedger \<times> string \<times> error option" where
  "Delete D s key =
     (case coerceKeyToHashLen D (keyCache s) key of
        (c, k) \<Rightarrow>
          (case smt_Delete D (tree s) k of
             (t, b, Some err) \<Rightarrow> (s\<lparr>tree := t, keyCache := c\<rparr>, [], Some err)
           | (t, b, None) \<Rightarrow>
               (case history_Put (history s) b of
                  (h, _, res) \<Rightarrow> (s\<lparr>tree := t, history := h, keyCache := c\<rparr>, res, None))))"

definition GetPreviousValue ::
  "('t, 'c) deps \<Rightarrow> ('t, 'c) smtLedger \<Rightarrow> string \<Rightarrow> string \<Rightarrow>
   ('t, 'c) smtLedger \<times> string \<times> error option" where
  "GetPreviousValue D s previousRootHash key =
     (case DecodeString previousRootHash of
        Inl off \<Rightarrow> (s, [], Some (DecodeError off))
      | Inr prevBytes \<Rightarrow>
          (case coerceKeyToHashLen D (keyCache s) key of
             (c, k) \<Rightarrow>
               (case smt_GetPreviousValue D (tree s) prevBytes k of
                  (t, b, err) \<Rightarrow>
                    (s\<lparr>tree := t, keyCache := c\<rparr>, string_of_bytes (trimLeadingZeroes b), err))))"

definition RootHash :: "('t, 'c) deps \<Rightarrow> ('t, 'c) smtLedger \<Rightarrow> string" where
  "RootHash D s = hashToString (smt_Root D (tree s))"

definition Get ::
  "('t, 'c) deps \<Rightarrow> ('t, 'c) smtLedger \<Rightarrow> string \<Rightarrow>
   ('t, 'c) smtLedger \<times> string \<times> error option" where
  "Get D s key = GetPreviousValue D s (RootHash D s) key"

text \<open>
  The loop of \<^verbatim>\<open>GetAllPrevious\<close> over \<open>keys\<close>, at index \<open>i\<close>. Reading
  \<^verbatim>\<open>truekey[0]\<close> of an empty cached value or \<^verbatim>\<open>values[i]\<close> past the end panics.
\<close>

fun reverse_loop ::
  "('t, 'c) deps \<Rightarrow> 'c \<Rightarrow> bytes list \<Rightarrow> nat \<Rightarrow> bytes list \<Rightarrow> (string \<rightharpoonup> string) \<Rightarrow>
   error option \<Rightarrow> panic + ('c \<times> (string \<rightharpoonup> string) \<times> error option)" where
  "reverse_loop D c [] i values result err = Inr (c, result, err)"
| "reverse_loop D c (k # ks) i values result err =
     (case cache_Get D c (copy_hash (hashLength D) k) of
        (c', truekey, True) \<Rightarrow>
          if truekey = [] \<or> length values \<le> i then Inl IndexOutOfRange
          else reverse_loop D c' ks (Suc i) values
                 (result(string_of_bytes (trimLeadingZeroes (truekey ! 0)) \<mapsto>
                         string_of_bytes (trimLeadingZeroes (values ! i))))
                 err
      | (c', truekey, False) \<Rightarrow>
          reverse_loop D c' ks (Suc i) values result
            (Some (multierror_Append err (KeyReversalMiss k))))"

text \<open>The map a caller gets is \<open>None\<close> for Go's nil map.\<close>

definition GetAllPrevious ::
  "('t, 'c) deps \<Rightarrow> ('t, 'c) smtLedger \<Rightarrow> string \<Rightarrow>
   panic + (('t, 'c) smtLedger \<times> (string \<rightharpoonup> string) option \<times> error option)" where
  "GetAllPrevious D s prevRoot =
     (case DecodeString prevRoot of
        Inl off \<Rightarrow> Inr (s, None, Some (DecodeError off))
      | Inr prevBytes \<Rightarrow>
          (case smt_GetAllPrevious D (tree s) prevBytes of
             (t, keys, values, err) \<Rightarrow>
               (case reverse_loop D (keyCache s) keys 0 values Map.empty err of
                  Inl p \<Rightarrow> Inl p
                | Inr (c, result, err') \<Rightarrow>
                    Inr (s\<lparr>tree := t, keyCache := c\<rparr>, Some result, err'))))"

definition GetAll ::
  "('t, 'c) deps \<Rightarrow> ('t, 'c) smtLedger \<Rightarrow>
   panic + (('t, 'c) smtLedger \<times> (string \<rightharpoonup> string) option \<times> error option)" where
  "GetAll D s = GetAllPrevious D s (RootHash D s)"

subsection \<open>Sequences of writes and erasures\<close>

datatype op = OpPut string string | OpDelete string | OpEraseRootHash string

fun apply_op :: "('t, 'c) deps \<Rightarrow> ('t, 'c) smtLedger \<Rightarrow> op \<Rightarrow> ('t, 'c) smtLedger" where
  "apply_op D s (OpPut key value) = fst (Put D s key value)"
| "apply_op D s (OpDelete key) = fst (Delete D s key)"
| "apply_op D s (OpEraseRootHash rootHash) = fst (EraseRootHash D s rootHash)"

definition run :: "('t, 'c) deps \<Rightarrow> op list \<Rightarrow> ('t, 'c) smtLedger" where
  "run D ops = foldl (apply_op D) (makeOld D) ops"

section \<open>A small backing structure\<close>

text \<open>
  One instance of the collaborators, to run the ledger on concrete inputs: the tree is
  the list of its versions, newest first, each a root with the key-value pairs of that
  version; the root of a version is the concatenation of its pairs; the cache is an
  association list; the digest keeps a key as it is.
\<close>

type_synonym simple_tree = "(bytes \<times> (bytes \<times> bytes) list) list"
type_synonym simple_cache = "(bytes \<times> bytes list) list"

definition simple_content :: "simple_tree \<Rightarrow> (bytes \<times> bytes) list" where
  "simple_content t = (case t of [] \<Rightarrow> [] | (r, c) # _ \<Rightarrow> c)"

definition simple_digest :: "(bytes \<times> bytes) list \<Rightarrow> bytes" where
  "simple_digest c = concat (map (\<lambda>(k, v). k @ v) c)"

definition simple_without :: "bytes \<Rightarrow> (bytes \<times> bytes) list \<Rightarrow> (bytes \<times> bytes) list" where
  "simple_without k c = filter (\<lambda>(k', v). k' \<noteq> k) c"

definition simple_Update ::
  "simple_tree \<Rightarrow> bytes list \<Rightarrow> bytes list \<Rightarrow> simple_tree \<times> bytes \<times> error option" where
  "simple_Update t ks vs =
     (let c = fold (\<lambda>(k, v) c. (k, v) # simple_without k c) (zip ks vs) (simple_content t)
      in ((simple_digest c, c) # t, simple_digest c, None))"

definition simple_Delete :: "simple_tree \<Rightarrow> bytes \<Rightarrow> simple_tree \<times> bytes \<times> error option" where
  "simple_Delete t k =
     (let c = simple_without k (simple_content t)
      in ((simple_digest c, c) # t, simple_digest c, None))"

definition simple_GetPreviousValue ::
  "simple_tree \<Rightarrow> bytes \<Rightarrow> bytes \<Rightarrow> simple_tree \<times> bytes \<times> error option" where
  "simple_GetPreviousValue t root k =
     (case map_of t root of
        None \<Rightarrow> (t, [], Some (BackingStoreError ''no such root''))
      | Some c \<Rightarrow>
          (case map_of c k of
             None \<Rightarrow> (t, [], Some (BackingStoreError ''no such key''))
           | Some v \<Rightarrow> (t, v, None)))"

definition simple_GetAllPrevious ::
  "simple_tree \<Rightarrow> bytes \<Rightarrow> simple_tree \<times> bytes list \<times> bytes list \<times> error option" where
  "simple_GetAllPrevious t root =
     (case map_of t root of
        None \<Rightarrow> (t, [], [], Some (BackingStoreError ''no such root''))
      | Some c \<Rightarrow> (t, map fst c, map snd c, None))"

definition simple_Erase ::
  "simple_tree \<Rightarrow> bytes \<Rightarrow> bytes list \<Rightarrow> simple_tree \<times> error option" where
  "simple_Erase t root adjacentRoots = (filter (\<lambda>(r, c). r \<noteq> root) t, None)"

definition simple_Root :: "simple_tree \<Rightarrow> bytes" where
  "simple_Root t = (case t of [] \<Rightarrow> [] | (r, c) # _ \<Rightarrow> r)"

definition simple_Set :: "simple_cache \<Rightarrow> bytes \<Rightarrow> bytes list \<Rightarrow> simple_cache" where
  "simple_Set c k v = (k, v) # c"

definition simple_Get :: "simple_cache \<Rightarrow> bytes \<Rightarrow> simple_cache \<times> bytes list \<times> bool" where
  "simple_Get c k = (case map_of c k of None \<Rightarrow> (c, [], False) | Some v \<Rightarrow> (c, v, True))"

definition simple :: "(simple_tree, simple_cache) deps" where
  "simple =
     \<lparr>newSMT = [], smt_Update = simple_Update, smt_Delete = simple_Delete,
      smt_GetPreviousValue = simple_GetPreviousValue,
      smt_GetAllPrevious = simple_GetAllPrevious, smt_Erase = simple_Erase,
      smt_Root = simple_Root, newCache = [], cache_Set = simple_Set,
      cache_Get = simple_Get, murmur3_Sum64 = (\<lambda>k. k), hashLength = 8\<rparr>"

text \<open>The same backing structure, but its \<^verbatim>\<open>Erase\<close> always fails.\<close>

definition simple_failing_erase :: "(simple_tree, simple_cache) deps" where
  "simple_failing_erase =
     simple\<lparr>smt_Erase := \<lambda>t root adjacentRoots. (t, Some (BackingStoreError ''erase failed''))\<rparr>"

text \<open>
  The same backing structure, but its \<^verbatim>\<open>GetAllPrevious\<close> returns two pairs together
  with an error.
\<close>

definition simple_failing_getall :: "(simple_tree, simple_cache) deps" where
  "simple_failing_getall =
     simple\<lparr>smt_GetAllPrevious :=
       \<lambda>t root. (t, [[97], [98]], [[50], [51]], Some (BackingStoreError ''interrupted''))\<rparr>"

text \<open>
  A ledger over the small backing structure whose tree holds two keys in the version
  with root \<open>[1]\<close>, and whose cache holds the first key only, as after an eviction.
\<close>

definition partly_cached :: "(simple_tree, simple_cache) smtLedger" where
  "partly_cached =
     \<lparr>tree = [([1], [([97], [50]), ([98], [51])])], history = newHistory,
      keyCache = [(copy_hash 8 [97], [[97]])]\<rparr>"

section \<open>Notions the properties are stated with\<close>

text \<open>
  The occurrences of an encoded hash in a sequence of entries, in their order, and the
  slot the index should hold for it: none when there is no occurrence.
\<close>

definition occurrences_of :: "element list \<Rightarrow> string \<Rightarrow> element list" where
  "occurrences_of l k = filter (\<lambda>e. hashToString (Value e) = k) l"

definition slot_of :: "element list \<Rightarrow> string \<Rightarrow> element list option" where
  "slot_of l k = (if occurrences_of l k = [] then None else Some (occurrences_of l k))"

text \<open>
  A history is consistent when its entries have distinct addresses below the next one
  to allocate, and its index holds for every hash the slot of its occurrences.
\<close>

definition hist_inv :: "history \<Rightarrow> bool" where
  "hist_inv h =
     (distinct (map addr (List h)) \<and> list_all (\<lambda>e. addr e < next_addr h) (List h) \<and>
      index h = slot_of (List h))"

text \<open>
  What the loop of \<^verbatim>\<open>GetAllPrevious\<close> meets, key by key: the outcome of every cache
  lookup (each lookup runs on the cache the one before left), the cache after the last
  lookup, the pairs of the keys that were found, and the keys that were missed.
\<close>

fun lookups :: "('t, 'c) deps \<Rightarrow> 'c \<Rightarrow> bytes list \<Rightarrow> (bytes list \<times> bool) list" where
  "lookups D c [] = []"
| "lookups D c (k # ks) =
     (case cache_Get D c (copy_hash (hashLength D) k) of
        (c', truekey, ok) \<Rightarrow> (truekey, ok) # lookups D c' ks)"

fun cache_after :: "('t, 'c) deps \<Rightarrow> 'c \<Rightarrow> bytes list \<Rightarrow> 'c" where
  "cache_after D c [] = c"
| "cache_after D c (k # ks) = cache_after D (fst (cache_Get D c (copy_hash (hashLength D) k))) ks"

fun found_pairs :: "(bytes list \<times> bool) list \<Rightarrow> bytes list \<Rightarrow> (string \<times> string) list" where
  "found_pairs [] vs = []"
| "found_pairs ((truekey, True) # ls) vs =
     (string_of_bytes (trimLeadingZeroes (truekey ! 0)),
      string_of_bytes (trimLeadingZeroes (vs ! 0))) # found_pairs ls (tl vs)"
| "found_pairs ((truekey, False) # ls) vs = found_pairs ls (tl vs)"

fun missed_keys :: "(bytes list \<times> bool) list \<Rightarrow> bytes list \<Rightarrow> bytes list" where
  "missed_keys ((truekey, ok) # ls) (k # ks) = (if ok then [] else [k]) @ missed_keys ls ks"
| "missed_keys ls ks = []"

text \<open>The entries of an optional error, a list counting for its entries.\<close>

definition error_entries :: "error option \<Rightarrow> error list" where
  "error_entries err = (case err of None \<Rightarrow> [] | Some e \<Rightarrow> errors_of e)"

text \<open>One more entry for every missed key, in the order of the keys.\<close>

definition add_misses :: "error option \<Rightarrow> bytes list \<Rightarrow> error option" where
  "add_misses err ks = foldl (\<lambda>err k. Some (multierror_Append err (KeyReversalMiss k))) err ks"

text \<open>
  The loop can read what it needs: every lookup that succeeds gives at least one byte
  sequence (as every entry that \<^verbatim>\<open>coerceKeyToHashLen\<close> stores does), and there is a
  value at its position. Nothing is asked of a lookup that fails.
\<close>

fun hits_readable :: "(bytes list \<times> bool) list \<Rightarrow> bytes list \<Rightarrow> bool" where
  "hits_readable [] vs = True"
| "hits_readable ((truekey, ok) # ls) vs =
     ((ok \<longrightarrow> truekey \<noteq> [] \<and> vs \<noteq> []) \<and> hits_readable ls (tl vs))"

section \<open>Evaluation on concrete inputs\<close>

lemmas base64_eval = enc_char_def encodeStd_def group_val_def padChar_def DecodeString_def
  decodeMap_def quantum_def is_newline_def skip_newlines_def hashToString_def

lemmas simple_eval = simple_def simple_Update_def simple_Delete_def simple_GetPreviousValue_def
  simple_GetAllPrevious_def simple_Erase_def simple_Root_def simple_Set_def simple_Get_def
  simple_content_def simple_digest_def simple_without_def

lemmas ledger_eval = run_def makeOld_def newHistory_def Put_def Delete_def EraseRootHash_def
  erase_precheck_def GetPreviousValue_def GetAllPrevious_def Get_def GetAll_def RootHash_def
  coerceKeyToHashLen_def copy_hash_def stringToBytes_def string_of_bytes_def
  history_Put_def history_Get_def history_Delete_def history_Remove_def Next_def Prev_def
  trimLeadingZeroes_def Let_def

section \<open>The history stays consistent\<close>

lemma hist_inv_new: "hist_inv newHistory"
  by (auto simp: hist_inv_def newHistory_def slot_of_def occurrences_of_def)

lemma history_Get_inv: "hist_inv h \<Longrightarrow> history_Get h k = occurrences_of (List h) k"
  by (simp add: hist_inv_def history_Get_def slot_of_def)

lemma hist_inv_Put: "hist_inv h \<Longrightarrow> hist_inv (fst (history_Put h b))"
  unfolding hist_inv_def history_Put_def Let_def
  by (auto simp: history_Get_def slot_of_def occurrences_of_def list_all_iff fun_eq_iff)

lemma list_Remove_filter:
  "distinct (map addr l) \<Longrightarrow> list_Remove l e = filter (\<lambda>x. addr x \<noteq> addr e) l"
proof (induction l)
  case Nil
  then show ?case by simp
next
  case (Cons x l)
  then show ?case
    by (auto simp: image_iff intro!: filter_True[symmetric])
qed

lemma fold_Remove_filter:
  "distinct (map addr (List h)) \<Longrightarrow>
   fold (\<lambda>o' h. history_Remove h o') es h =
     h\<lparr>List := filter (\<lambda>x. addr x \<notin> addr ` set es) (List h)\<rparr>"
proof (induction es arbitrary: h)
  case Nil
  then show ?case by simp
next
  case (Cons e es)
  have d: "distinct (map addr (List (history_Remove h e)))"
    using Cons.prems by (simp add: history_Remove_def list_Remove_filter distinct_map_filter)
  show ?case
    using Cons.prems
    by (simp add: Cons.IH[OF d]) (simp add: history_Remove_def list_Remove_filter conj_commute)
qed

lemma addr_in_occurrences:
  "distinct (map addr l) \<Longrightarrow> x \<in> set l \<Longrightarrow>
   (addr x \<in> addr ` set (occurrences_of l k)) = (hashToString (Value x) = k)"
  by (auto simp: occurrences_of_def distinct_map inj_on_def)

lemma filter_out_occurrences:
  "distinct (map addr l) \<Longrightarrow>
   filter (\<lambda>x. addr x \<notin> addr ` set (occurrences_of l k)) l =
   filter (\<lambda>e. hashToString (Value e) \<noteq> k) l"
  by (rule filter_cong) (simp_all add: addr_in_occurrences)

lemma hist_inv_erase:
  assumes "hist_inv h"
  shows "hist_inv (history_Delete (fold (\<lambda>o' h. history_Remove h o') (history_Get h k) h) k)"
proof -
  have d: "distinct (map addr (List h))" using assms by (simp add: hist_inv_def)
  have g: "history_Get h k = occurrences_of (List h) k" using assms by (rule history_Get_inv)
  have i: "index h = slot_of (List h)" using assms by (simp add: hist_inv_def)
  let ?l = "filter (\<lambda>e. hashToString (Value e) \<noteq> k) (List h)"
  have f: "fold (\<lambda>o' h. history_Remove h o') (history_Get h k) h = h\<lparr>List := ?l\<rparr>"
    by (simp add: fold_Remove_filter[OF d] g filter_out_occurrences[OF d])
  have s: "(slot_of (List h))(k := None) = slot_of ?l"
    by (auto simp: fun_eq_iff slot_of_def occurrences_of_def filter_empty_conv
        intro!: filter_cong)
  show ?thesis
    using assms by (simp add: f history_Delete_def hist_inv_def s i distinct_map_filter list_all_iff)
qed

lemma erase_history_cases:
  "history (fst (EraseRootHash D s k)) = history s \<or>
   history (fst (EraseRootHash D s k)) =
     history_Delete (fold (\<lambda>o' h. history_Remove h o') (history_Get (history s) k) (history s)) k"
  by (auto simp: EraseRootHash_def erase_precheck_def Let_def split: sum.splits option.splits prod.splits)

lemma hist_inv_EraseRootHash:
  "hist_inv (history s) \<Longrightarrow> hist_inv (history (fst (EraseRootHash D s k)))"
  using erase_history_cases[of D s k] hist_inv_erase[of "history s" k] by auto

lemma hist_inv_Put': "hist_inv h \<Longrightarrow> history_Put h b = (h', e, k) \<Longrightarrow> hist_inv h'"
  using hist_inv_Put[of h b] by simp

lemma hist_inv_ledger_Put:
  "hist_inv (history s) \<Longrightarrow> hist_inv (history (fst (Put D s key v)))"
  by (auto simp: Put_def split: prod.splits option.splits dest: hist_inv_Put')

lemma hist_inv_ledger_Delete:
  "hist_inv (history s) \<Longrightarrow> hist_inv (history (fst (Delete D s key)))"
  by (auto simp: Delete_def split: prod.splits option.splits dest: hist_inv_Put')

lemma hist_inv_apply_op: "hist_inv (history s) \<Longrightarrow> hist_inv (history (apply_op D s x))"
  by (cases x) (simp_all add: hist_inv_ledger_Put hist_inv_ledger_Delete hist_inv_EraseRootHash)

lemma hist_inv_foldl:
  "hist_inv (history s) \<Longrightarrow> hist_inv (history (foldl (apply_op D) s ops))"
  by (induction ops arbitrary: s) (simp_all add: hist_inv_apply_op)

lemma hist_inv_run: "hist_inv (history (run D ops))"
  unfolding run_def by (rule hist_inv_foldl) (simp add: makeOld_def hist_inv_new)

text \<open>
  Claim C3. After every sequence of \<^verbatim>\<open>Put\<close>, \<^verbatim>\<open>Delete\<close> and \<^verbatim>\<open>EraseRootHash\<close> on a
  new ledger, whatever the backing structure answers, the index has a slot for a hash
  exactly when an entry with that hash is in the sequence, and no slot is empty.
\<close>

theorem index_slot_iff_occurrence:
  "(index (history (run D ops)) k \<noteq> None) =
     (\<exists>e \<in> set (List (history (run D ops))). hashToString (Value e) = k) \<and>
   index (history (run D ops)) k \<noteq> Some []"
proof -
  have "index (history (run D ops)) = slot_of (List (history (run D ops)))"
    using hist_inv_run[of D ops] by (simp add: hist_inv_def)
  then show ?thesis
    by (auto simp: slot_of_def occurrences_of_def filter_empty_conv)
qed

text \<open>
  Two writes, then the erasure of the first root: its slot and its entry are gone, the
  other entry and its slot remain.
\<close>

theorem index_slot_iff_occurrence_witness:
  "index (history (run simple [OpPut ''a'' ''1'', OpPut ''a'' ''2'', OpEraseRootHash ''YTE='']))
     ''YTE='' = None \<and>
   List (history (run simple [OpPut ''a'' ''1'', OpPut ''a'' ''2'', OpEraseRootHash ''YTE='']))
     = [\<lparr>addr = 1, Value = [97, 50]\<rparr>] \<and>
   index (history (run simple [OpPut ''a'' ''1'', OpPut ''a'' ''2'', OpEraseRootHash ''YTE='']))
     ''YTI='' \<noteq> None"
proof -
  let ?ops = "[OpPut ''a'' ''1'', OpPut ''a'' ''2'', OpEraseRootHash ''YTE='']"
  have l: "List (history (run simple ?ops)) = [\<lparr>addr = 1, Value = [97, 50]\<rparr>]"
    by (simp add: ledger_eval simple_eval base64_eval)
  have a: "index (history (run simple ?ops)) ''YTE='' = None"
    using index_slot_iff_occurrence[of simple ?ops "''YTE=''"]
    by (simp add: l base64_eval)
  have b: "index (history (run simple ?ops)) ''YTI='' \<noteq> None"
    using index_slot_iff_occurrence[of simple ?ops "''YTI=''"]
    by (simp add: l base64_eval)
  show ?thesis using l a b by simp
qed

section \<open>Erasing a root hash\<close>

lemma list_Next_last:
  "distinct (map addr l) \<Longrightarrow> l \<noteq> [] \<Longrightarrow> list_Next l (last l) = None"
proof (induction l "last l" rule: list_Next.induct)
  case 1
  then show ?case by simp
next
  case (2 x)
  then show ?case by simp
next
  case (3 x y r)
  then show ?case by (auto simp: image_iff)
qed

lemma list_Next_Some:
  "e \<in> set l \<Longrightarrow> addr e \<noteq> addr (last l) \<Longrightarrow> list_Next l e \<noteq> None"
proof (induction l e rule: list_Next.induct)
  case (1 e)
  then show ?case by simp
next
  case (2 x e)
  then show ?case by auto
next
  case (3 x y r e)
  then show ?case by auto
qed

lemma adjacent_loop_None:
  "(adjacent_loop h es acc = None) = (\<exists>o' \<in> set es. Next h o' = None)"
  by (induction es arbitrary: acc) (auto split: option.splits)

lemma precheck_absent:
  "hist_inv h \<Longrightarrow> occurrences_of (List h) k = [] \<Longrightarrow> erase_precheck h k = Inl (NotFound k)"
  by (simp add: erase_precheck_def history_Get_inv)

lemma last_in_occurrences:
  "l \<noteq> [] \<Longrightarrow> hashToString (Value (last l)) = k \<Longrightarrow> last l \<in> set (occurrences_of l k)"
  by (simp add: occurrences_of_def)

lemma precheck_current:
  assumes "hist_inv h" "List h \<noteq> []" "hashToString (Value (last (List h))) = k"
  shows "erase_precheck h k = Inl InvalidOperation"
proof -
  have d: "distinct (map addr (List h))" using assms(1) by (simp add: hist_inv_def)
  have m: "last (List h) \<in> set (occurrences_of (List h) k)"
    using assms(2,3) by (rule last_in_occurrences)
  have n: "Next h (last (List h)) = None"
    unfolding Next_def using d assms(2) by (rule list_Next_last)
  have "adjacent_loop h (occurrences_of (List h) k) [] = None"
    using m n by (auto simp: adjacent_loop_None)
  moreover have "occurrences_of (List h) k \<noteq> []" using m by auto
  ultimately show ?thesis
    using assms(1) by (simp add: erase_precheck_def history_Get_inv)
qed

lemma precheck_passes:
  assumes "hist_inv h" "occurrences_of (List h) k \<noteq> []"
    "hashToString (Value (last (List h))) \<noteq> k"
  shows "\<exists>adj. erase_precheck h k = Inr (occurrences_of (List h) k, adj)"
proof -
  have d: "distinct (map addr (List h))" using assms(1) by (simp add: hist_inv_def)
  have "Next h e \<noteq> None" if "e \<in> set (occurrences_of (List h) k)" for e
  proof -
    have e: "e \<in> set (List h)" "hashToString (Value e) = k"
      using that by (simp_all add: occurrences_of_def)
    then have ne: "List h \<noteq> []" by auto
    have "e \<noteq> last (List h)" using e(2) assms(3) by auto
    then have "addr e \<noteq> addr (last (List h))"
      using d e(1) ne by (auto simp: distinct_map inj_on_def)
    then show ?thesis unfolding Next_def using e(1) by (rule list_Next_Some[rotated])
  qed
  then have "adjacent_loop h (occurrences_of (List h) k) [] \<noteq> None"
    by (simp add: adjacent_loop_None)
  then show ?thesis
    using assms(1,2) by (auto simp: erase_precheck_def history_Get_inv)
qed

text \<open>
  Claim C1, as amended. In every ledger state whose history is consistent, is not empty
  and ends with the current root of the backing structure, \<^verbatim>\<open>EraseRootHash\<close> of
  \<^verbatim>\<open>RootHash()\<close> fails with "cannot erase current rootHash" and leaves the whole
  state as it was: the sequence, the index, the backing structure and the key cache.
\<close>

theorem erase_current_root_fails:
  assumes "hist_inv (history s)"
    and "List (history s) \<noteq> []"
    and "Value (last (List (history s))) = smt_Root D (tree s)"
  shows "EraseRootHash D s (RootHash D s) = (s, Some InvalidOperation)"
proof -
  have "hashToString (Value (last (List (history s)))) = RootHash D s"
    using assms(3) by (simp add: RootHash_def)
  then have "erase_precheck (history s) (RootHash D s) = Inl InvalidOperation"
    using assms(1,2) by (intro precheck_current)
  then show ?thesis by (simp add: EraseRootHash_def)
qed

text \<open>After two writes the current root is the last entry, and erasing it is refused.\<close>

theorem erase_current_root_fails_witness:
  "RootHash simple (run simple [OpPut ''a'' ''1'', OpPut ''a'' ''2'']) = ''YTI='' \<and>
   EraseRootHash simple (run simple [OpPut ''a'' ''1'', OpPut ''a'' ''2'']) ''YTI='' =
     (run simple [OpPut ''a'' ''1'', OpPut ''a'' ''2''], Some InvalidOperation)"
proof -
  let ?s = "run simple [OpPut ''a'' ''1'', OpPut ''a'' ''2'']"
  have i: "hist_inv (history ?s)" by (rule hist_inv_run)
  have l: "List (history ?s) = [\<lparr>addr = 0, Value = [97, 49]\<rparr>, \<lparr>addr = 1, Value = [97, 50]\<rparr>]"
    by (simp add: ledger_eval simple_eval base64_eval)
  have r: "smt_Root simple (tree ?s) = [97, 50]"
    by (simp add: ledger_eval simple_eval base64_eval)
  have h: "RootHash simple ?s = ''YTI=''"
    by (simp add: RootHash_def r base64_eval)
  have "EraseRootHash simple ?s (RootHash simple ?s) = (?s, Some InvalidOperation)"
    using i by (rule erase_current_root_fails) (simp_all add: l r)
  then show ?thesis using h by simp
qed

text \<open>
  Claim C1 as stated fails on a new ledger: its history is empty, so the lookup of the
  current root finds no occurrence and the call fails with "not present in ledger
  history" instead.
\<close>

theorem erase_root_of_new_ledger_counterexample:
  "EraseRootHash simple (makeOld simple) (RootHash simple (makeOld simple)) =
     (makeOld simple, Some (NotFound []))"
  by (simp add: ledger_eval simple_eval base64_eval)

text \<open>
  Claim C2. When the root hash has an occurrence in a consistent history and is not the
  hash of the last entry, \<^verbatim>\<open>EraseRootHash\<close> reaches the call of the backing
  structure's \<^verbatim>\<open>Erase\<close>; if that call returns an error, \<^verbatim>\<open>EraseRootHash\<close> returns this
  error, and the history (sequence, index) is the one before the call. Only the
  backing structure's own state is what \<^verbatim>\<open>Erase\<close> left.
\<close>

theorem erase_backing_failure_keeps_history:
  assumes "hist_inv (history s)"
    and "\<exists>e \<in> set (List (history s)). hashToString (Value e) = h"
    and "hashToString (Value (last (List (history s)))) \<noteq> h"
  shows "\<exists>occurrences adjacentRoots.
           erase_precheck (history s) h = Inr (occurrences, adjacentRoots) \<and>
           (\<forall>t err. smt_Erase D (tree s) (Value (occurrences ! 0)) adjacentRoots = (t, Some err) \<longrightarrow>
              EraseRootHash D s h = (s\<lparr>tree := t\<rparr>, Some err) \<and>
              history (fst (EraseRootHash D s h)) = history s)"
proof -
  have "occurrences_of (List (history s)) h \<noteq> []"
    using assms(2) by (auto simp: occurrences_of_def filter_empty_conv)
  then obtain adj where
    p: "erase_precheck (history s) h = Inr (occurrences_of (List (history s)) h, adj)"
    using precheck_passes[OF assms(1) _ assms(3)] by blast
  show ?thesis
    by (intro exI conjI, rule p) (simp add: EraseRootHash_def p)
qed

text \<open>With a failing \<^verbatim>\<open>Erase\<close>, erasing the first of two roots changes nothing.\<close>

theorem erase_backing_failure_keeps_history_witness:
  "EraseRootHash simple_failing_erase
     (run simple_failing_erase [OpPut ''a'' ''1'', OpPut ''a'' ''2'']) ''YTE='' =
     (run simple_failing_erase [OpPut ''a'' ''1'', OpPut ''a'' ''2''],
      Some (BackingStoreError ''erase failed'')) \<and>
   List (history (run simple_failing_erase [OpPut ''a'' ''1'', OpPut ''a'' ''2''])) =
     [\<lparr>addr = 0, Value = [97, 49]\<rparr>, \<lparr>addr = 1, Value = [97, 50]\<rparr>]"
proof -
  let ?D = simple_failing_erase
  let ?s = "run ?D [OpPut ''a'' ''1'', OpPut ''a'' ''2'']"
  have i: "hist_inv (history ?s)" by (rule hist_inv_run)
  have l: "List (history ?s) = [\<lparr>addr = 0, Value = [97, 49]\<rparr>, \<lparr>addr = 1, Value = [97, 50]\<rparr>]"
    by (simp add: simple_failing_erase_def ledger_eval simple_eval base64_eval)
  have p: "\<exists>e \<in> set (List (history ?s)). hashToString (Value e) = ''YTE=''"
    by (simp add: l base64_eval)
  have c: "hashToString (Value (last (List (history ?s)))) \<noteq> ''YTE=''"
    by (simp add: l base64_eval)
  have f: "smt_Erase ?D t root adj = (t, Some (BackingStoreError ''erase failed''))" for t root adj
    by (simp add: simple_failing_erase_def)
  from erase_backing_failure_keeps_history[OF i p c, of ?D]
  have "EraseRootHash ?D ?s ''YTE='' = (?s\<lparr>tree := tree ?s\<rparr>, Some (BackingStoreError ''erase failed''))"
    using f by blast
  then show ?thesis using l by simp
qed

text \<open>
  Claim C7. When no entry of a consistent history has the hash \<open>h\<close>,
  \<^verbatim>\<open>EraseRootHash\<close> of \<open>h\<close> fails with "not present in ledger history" and the state
  is unchanged.
\<close>

theorem erase_absent_hash_not_found:
  assumes "hist_inv (history s)"
    and "\<forall>e \<in> set (List (history s)). hashToString (Value e) \<noteq> h"
  shows "EraseRootHash D s h = (s, Some (NotFound h))"
proof -
  have "occurrences_of (List (history s)) h = []"
    using assms(2) by (simp add: occurrences_of_def filter_empty_conv)
  then have "erase_precheck (history s) h = Inl (NotFound h)"
    using assms(1) by (intro precheck_absent)
  then show ?thesis by (simp add: EraseRootHash_def)
qed

text \<open>Erasing a root a second time: its occurrences are gone, so it is not found.\<close>

theorem erase_absent_hash_not_found_witness:
  "EraseRootHash simple
     (run simple [OpPut ''a'' ''1'', OpPut ''a'' ''2'', OpEraseRootHash ''YTE='']) ''YTE='' =
     (run simple [OpPut ''a'' ''1'', OpPut ''a'' ''2'', OpEraseRootHash ''YTE=''],
      Some (NotFound ''YTE=''))"
proof -
  let ?s = "run simple [OpPut ''a'' ''1'', OpPut ''a'' ''2'', OpEraseRootHash ''YTE='']"
  have i: "hist_inv (history ?s)" by (rule hist_inv_run)
  have l: "List (history ?s) = [\<lparr>addr = 1, Value = [97, 50]\<rparr>]"
    by (simp add: ledger_eval simple_eval base64_eval)
  have a: "\<forall>e \<in> set (List (history ?s)). hashToString (Value e) \<noteq> ''YTE=''"
    by (simp add: l base64_eval)
  show ?thesis using i a by (rule erase_absent_hash_not_found)
qed

section \<open>Reading values\<close>

lemma range_loop_zeros:
  "list_all (\<lambda>b. b = 0) xs \<Longrightarrow> range_loop i k xs = (if xs = [] then i else k + length xs - 1)"
  by (induction xs arbitrary: i k) auto

lemma range_loop_nonzero:
  "\<not> list_all (\<lambda>b. b = 0) xs \<Longrightarrow> range_loop i k xs = k + length (takeWhile (\<lambda>b. b = 0) xs)"
  by (induction xs arbitrary: i k) auto

lemma drop_all_but_last_zero:
  "xs \<noteq> [] \<Longrightarrow> list_all (\<lambda>b. b = 0) xs \<Longrightarrow> drop (length xs - Suc 0) xs = [0::byte]"
proof (induction xs)
  case Nil
  then show ?case by simp
next
  case (Cons x xs)
  then show ?case by (cases xs) auto
qed

text \<open>
  Claim C4. \<^verbatim>\<open>trimLeadingZeroes\<close> removes all leading zero bytes of an input that has a
  non-zero byte, and returns the empty input as it is; of a non-empty input of zero
  bytes only it keeps the last byte, so the result is one zero byte and not the empty
  sequence the claim states. \<^verbatim>\<open>GetPreviousValue\<close> returns this result as a string.
\<close>

theorem trimLeadingZeroes_result:
  "trimLeadingZeroes xs =
     (if xs \<noteq> [] \<and> list_all (\<lambda>b. b = 0) xs then [0] else dropWhile (\<lambda>b. b = 0) xs)"
proof (cases "list_all (\<lambda>b. b = 0) xs")
  case True
  then show ?thesis
    by (cases "xs = []")
      (simp_all add: trimLeadingZeroes_def range_loop_zeros drop_all_but_last_zero)
next
  case False
  then show ?thesis
    by (simp add: trimLeadingZeroes_def range_loop_nonzero dropWhile_eq_drop)
qed

text \<open>
  A value of three zero bytes is stored and read back through \<^verbatim>\<open>Get\<close>: the string
  returned is one zero byte.
\<close>

theorem all_zero_value_read_back:
  "trimLeadingZeroes [0, 0, 0] = [0] \<and>
   fst (snd (Get simple (run simple [OpPut ''k'' [CHR 0x00, CHR 0x00, CHR 0x00]]) ''k'')) =
     [CHR 0x00]"
proof -
  have t: "trimLeadingZeroes [0, 0, 0] = [0]"
    using trimLeadingZeroes_result[of "[0, 0, 0]"] by simp
  show ?thesis
    apply (simp add: t)
    apply (simp add: Get_def GetPreviousValue_def)
    apply (simp add: ledger_eval simple_eval base64_eval t[unfolded trimLeadingZeroes_def]
        char_of_def)
    done
qed

text \<open>
  Claim C8. \<^verbatim>\<open>Get(key)\<close> is \<^verbatim>\<open>GetPreviousValue(RootHash(), key)\<close> and \<^verbatim>\<open>GetAll()\<close> is
  \<^verbatim>\<open>GetAllPrevious(RootHash())\<close>: the same value, error and resulting state.
\<close>

theorem Get_is_GetPreviousValue_at_RootHash:
  "Get D s key = GetPreviousValue D s (RootHash D s) key \<and>
   GetAll D s = GetAllPrevious D s (RootHash D s)"
  by (simp add: Get_def GetAll_def)

section \<open>Writing\<close>

lemma history_Put_shape:
  "history_Put h b =
     (\<lparr>List = List h @ [\<lparr>addr = next_addr h, Value = b\<rparr>],
       index = (index h)(EncodeToString b \<mapsto>
                 history_Get h (EncodeToString b) @ [\<lparr>addr = next_addr h, Value = b\<rparr>]),
       next_addr = Suc (next_addr h)\<rparr>,
      \<lparr>addr = next_addr h, Value = b\<rparr>, EncodeToString b)"
  by (simp add: history_Put_def hashToString_def Let_def)

lemma fresh_addr: "hist_inv h \<Longrightarrow> next_addr h \<notin> addr ` set (List h)"
  by (auto simp: hist_inv_def list_all_iff)

text \<open>
  Claim C5. In a consistent history, a \<^verbatim>\<open>Put\<close> or \<^verbatim>\<open>Delete\<close> whose call of the backing
  structure succeeds with root \<open>b\<close> returns no error and the base64 encoding of \<open>b\<close>;
  the sequence is the old one with one new last entry holding \<open>b\<close>, at an address no
  older entry has; and the slot of that hash is the old occurrences followed by the
  new entry, all other slots being as before. Nothing depends on \<open>b\<close> being new.
\<close>

theorem write_appends_tail_entry:
  assumes "hist_inv (history s)"
  shows
    "(smt_Update D (tree s) [murmur3_Sum64 D (stringToBytes key)] [stringToBytes value] = (t, b, None) \<longrightarrow>
        fst (snd (Put D s key value)) = EncodeToString b \<and>
        snd (snd (Put D s key value)) = None \<and>
        List (history (fst (Put D s key value))) =
          List (history s) @ [\<lparr>addr = next_addr (history s), Value = b\<rparr>] \<and>
        index (history (fst (Put D s key value))) =
          (index (history s))(EncodeToString b \<mapsto>
             occurrences_of (List (history s)) (EncodeToString b) @
             [\<lparr>addr = next_addr (history s), Value = b\<rparr>])) \<and>
     (smt_Delete D (tree s) (murmur3_Sum64 D (stringToBytes key)) = (t', b', None) \<longrightarrow>
        fst (snd (Delete D s key)) = EncodeToString b' \<and>
        snd (snd (Delete D s key)) = None \<and>
        List (history (fst (Delete D s key))) =
          List (history s) @ [\<lparr>addr = next_addr (history s), Value = b'\<rparr>] \<and>
        index (history (fst (Delete D s key))) =
          (index (history s))(EncodeToString b' \<mapsto>
             occurrences_of (List (history s)) (EncodeToString b') @
             [\<lparr>addr = next_addr (history s), Value = b'\<rparr>])) \<and>
     next_addr (history s) \<notin> addr ` set (List (history s))"
  using assms
  by (simp add: Put_def Delete_def coerceKeyToHashLen_def history_Put_shape history_Get_inv
      fresh_addr Let_def)

text \<open>
  Writing, deleting and writing the same pair again gives the first root a second
  time: the sequence has three entries and the slot of that root holds the first and
  the third, in this order.
\<close>

theorem write_appends_tail_entry_witness:
  "fst (snd (Put simple (run simple [OpPut ''a'' ''1'', OpDelete ''a'']) ''a'' ''1'')) = ''YTE='' \<and>
   List (history (fst (Put simple (run simple [OpPut ''a'' ''1'', OpDelete ''a'']) ''a'' ''1''))) =
     [\<lparr>addr = 0, Value = [97, 49]\<rparr>, \<lparr>addr = 1, Value = []\<rparr>, \<lparr>addr = 2, Value = [97, 49]\<rparr>] \<and>
   index (history (fst (Put simple (run simple [OpPut ''a'' ''1'', OpDelete ''a'']) ''a'' ''1''))) ''YTE='' =
     Some [\<lparr>addr = 0, Value = [97, 49]\<rparr>, \<lparr>addr = 2, Value = [97, 49]\<rparr>] \<and>
   fst (snd (Delete simple (run simple [OpPut ''a'' ''1'']) ''a'')) = [] \<and>
   List (history (fst (Delete simple (run simple [OpPut ''a'' ''1'']) ''a''))) =
     [\<lparr>addr = 0, Value = [97, 49]\<rparr>, \<lparr>addr = 1, Value = []\<rparr>]"
proof -
  let ?s = "run simple [OpPut ''a'' ''1'', OpDelete ''a'']"
  let ?s1 = "run simple [OpPut ''a'' ''1'']"
  have i: "hist_inv (history ?s)" and i1: "hist_inv (history ?s1)" by (rule hist_inv_run)+
  have l: "List (history ?s) = [\<lparr>addr = 0, Value = [97, 49]\<rparr>, \<lparr>addr = 1, Value = []\<rparr>]"
    and n: "next_addr (history ?s) = 2"
    and u: "smt_Update simple (tree ?s) [murmur3_Sum64 simple (stringToBytes ''a'')] [stringToBytes ''1'']
       = (([97, 49], [([97], [49])]) # tree ?s, [97, 49], None)"
    by (simp_all add: ledger_eval simple_eval base64_eval)
  have l1: "List (history ?s1) = [\<lparr>addr = 0, Value = [97, 49]\<rparr>]"
    and n1: "next_addr (history ?s1) = 1"
    and d: "smt_Delete simple (tree ?s1) (murmur3_Sum64 simple (stringToBytes ''a''))
       = (([], []) # tree ?s1, [], None)"
    by (simp_all add: ledger_eval simple_eval base64_eval)
  note put = write_appends_tail_entry[OF i, of simple "''a''" "''1''", THEN conjunct1, rule_format, OF u]
  have p: "fst (snd (Put simple ?s ''a'' ''1'')) = ''YTE=''"
    "List (history (fst (Put simple ?s ''a'' ''1''))) =
       [\<lparr>addr = 0, Value = [97, 49]\<rparr>, \<lparr>addr = 1, Value = []\<rparr>, \<lparr>addr = 2, Value = [97, 49]\<rparr>]"
    "index (history (fst (Put simple ?s ''a'' ''1''))) ''YTE='' =
       Some [\<lparr>addr = 0, Value = [97, 49]\<rparr>, \<lparr>addr = 2, Value = [97, 49]\<rparr>]"
    using put by (simp_all add: l n base64_eval occurrences_of_def)
  note del = write_appends_tail_entry[OF i1, of simple "''a''", THEN conjunct2, THEN conjunct1,
      rule_format, OF d]
  have q: "fst (snd (Delete simple ?s1 ''a'')) = []"
    "List (history (fst (Delete simple ?s1 ''a''))) =
     [\<lparr>addr = 0, Value = [97, 49]\<rparr>, \<lparr>addr = 1, Value = []\<rparr>]"
    using del by (simp_all add: l1 n1)
  show ?thesis using p q by simp
qed

section \<open>Decoding what was encoded\<close>

lemma index_of_nth: "distinct xs \<Longrightarrow> i < length xs \<Longrightarrow> index_of (xs ! i) xs = Some i"
proof (induction xs arbitrary: i)
  case Nil
  then show ?case by simp
next
  case (Cons x xs)
  then show ?case by (cases i) auto
qed

lemma decodeMap_enc_char: "decodeMap (enc_char v) = Some (v mod 64)"
  unfolding decodeMap_def enc_char_def
  by (rule index_of_nth) (simp_all add: encodeStd_def)

lemma decodeMap_padChar: "decodeMap padChar = None"
  by (simp add: decodeMap_def padChar_def encodeStd_def)

lemma padChar_not_newline: "\<not> is_newline padChar"
  by (simp add: is_newline_def padChar_def)

lemma sextets_join:
  assumes "v < 2 ^ 24"
  shows "(v div 2 ^ 18 mod 64) * 2 ^ 18 + (v div 2 ^ 12 mod 64) * 2 ^ 12 +
     (v div 2 ^ 6 mod 64) * 2 ^ 6 + v mod 64 = (v::nat)"
proof -
  define q1 where "q1 = v div 64"
  define q2 where "q2 = q1 div 64"
  define q3 where "q3 = q2 div 64"
  have d1: "v div 2 ^ 6 = q1" by (simp add: q1_def)
  have d2: "v div 2 ^ 12 = q2" by (simp add: q2_def q1_def div_mult2_eq[symmetric])
  have d3: "v div 2 ^ 18 = q3" by (simp add: q3_def q2_def q1_def div_mult2_eq[symmetric])
  have "q3 < 64" using assms unfolding d3[symmetric] by (simp add: less_mult_imp_div_less)
  then have m3: "q3 mod 64 = q3" by simp
  have e1: "v = 64 * q1 + v mod 64" by (simp add: q1_def)
  have e2: "q1 = 64 * q2 + q1 mod 64" by (simp add: q2_def)
  have e3: "q2 = 64 * q3 + q2 mod 64" by (simp add: q3_def)
  have "q3 * 2 ^ 18 + (q2 mod 64) * 2 ^ 12 + (q1 mod 64) * 2 ^ 6 + v mod 64 = v"
    using e1 e2 e3 by simp
  then show ?thesis by (simp only: d1 d2 d3 m3)
qed

lemma group_val_bound: "group_val a b c < 2 ^ 24"
proof -
  have "unat a < 256" "unat b < 256" "unat c < 256"
    using unsigned_less[of a, where 'a=nat] unsigned_less[of b, where 'a=nat] unsigned_less[of c, where 'a=nat] by simp_all
  then show ?thesis by (simp add: group_val_def)
qed

lemma group_val_bytes:
  "of_nat (group_val a b c div 2 ^ 16) = a"
  "of_nat (group_val a b c div 2 ^ 8) = b"
  "of_nat (group_val a b c) = c"
proof -
  have bd: "unat a < 256" "unat b < 256" "unat c < 256"
    using unsigned_less[of a, where 'a=nat] unsigned_less[of b, where 'a=nat] unsigned_less[of c, where 'a=nat] by simp_all
  have z: "(256::byte) = 0" "(65536::byte) = 0" by simp_all
  have z': "x * (256::byte) = 0" "x * (65536::byte) = 0" for x
    by (simp_all only: z mult_zero_right)
  have "group_val a b c div 2 ^ 16 = unat a"
    using bd by (simp add: group_val_def)
  then show "of_nat (group_val a b c div 2 ^ 16) = a" by simp
  have "group_val a b c div 2 ^ 8 = unat a * 256 + unat b"
    using bd by (simp add: group_val_def)
  then have "of_nat (group_val a b c div 2 ^ 8) = a * 256 + b" by simp
  then show "of_nat (group_val a b c div 2 ^ 8) = b" by (simp only: z' add_0_left)
  have "of_nat (group_val a b c) = a * 65536 + b * 256 + c" by (simp add: group_val_def)
  then show "of_nat (group_val a b c) = c" by (simp only: z' add_0_left)
qed

lemma quantum_val4:
  "quantum [s0, s1, s2, s3] =
     [of_nat ((s0 * 2 ^ 18 + s1 * 2 ^ 12 + s2 * 2 ^ 6 + s3) div 2 ^ 16),
      of_nat ((s0 * 2 ^ 18 + s1 * 2 ^ 12 + s2 * 2 ^ 6 + s3) div 2 ^ 8),
      of_nat (s0 * 2 ^ 18 + s1 * 2 ^ 12 + s2 * 2 ^ 6 + s3)]"
  by (simp add: quantum_def Let_def)

lemma quantum_val3:
  "quantum [s0, s1, s2] =
     [of_nat ((s0 * 2 ^ 18 + s1 * 2 ^ 12 + s2 * 2 ^ 6 + 0) div 2 ^ 16),
      of_nat ((s0 * 2 ^ 18 + s1 * 2 ^ 12 + s2 * 2 ^ 6 + 0) div 2 ^ 8)]"
  by (simp add: quantum_def Let_def)

lemma quantum_val2:
  "quantum [s0, s1] = [of_nat ((s0 * 2 ^ 18 + s1 * 2 ^ 12 + 0 * 2 ^ 6 + 0) div 2 ^ 16)]"
  by (simp add: quantum_def Let_def)

lemma quantum4:
  "quantum [group_val a b c div 2 ^ 18 mod 64, group_val a b c div 2 ^ 12 mod 64,
            group_val a b c div 2 ^ 6 mod 64, group_val a b c mod 64] = [a, b, c]"
  by (simp only: quantum_val4 sextets_join[OF group_val_bound] group_val_bytes)

lemma quantum3:
  "quantum [group_val a b 0 div 2 ^ 18 mod 64, group_val a b 0 div 2 ^ 12 mod 64,
            group_val a b 0 div 2 ^ 6 mod 64] = [a, b]"
proof -
  have "group_val a b 0 mod 64 = 0" by (simp add: group_val_def)
  then have "(group_val a b 0 div 2 ^ 18 mod 64) * 2 ^ 18 +
      (group_val a b 0 div 2 ^ 12 mod 64) * 2 ^ 12 +
      (group_val a b 0 div 2 ^ 6 mod 64) * 2 ^ 6 + 0 = group_val a b 0"
    using sextets_join[OF group_val_bound[of a b 0]] by (simp only:)
  then show ?thesis by (simp only: quantum_val3 group_val_bytes)
qed

lemma quantum2:
  "quantum [group_val a 0 0 div 2 ^ 18 mod 64, group_val a 0 0 div 2 ^ 12 mod 64] = [a]"
proof -
  have "group_val a 0 0 mod 64 = 0" "group_val a 0 0 div 2 ^ 6 mod 64 = 0"
    by (simp_all add: group_val_def)
  then have "(group_val a 0 0 div 2 ^ 18 mod 64) * 2 ^ 18 +
      (group_val a 0 0 div 2 ^ 12 mod 64) * 2 ^ 12 + 0 * 2 ^ 6 + 0 = group_val a 0 0"
    using sextets_join[OF group_val_bound[of a 0 0]] by (simp only:)
  then show ?thesis by (simp only: quantum_val2 group_val_bytes)
qed

lemma decode_step:
  "decodeMap c = Some v \<Longrightarrow>
   decode n dbuf out (c # rest) =
     (if length dbuf = 3 then decode n [] (out @ quantum (dbuf @ [v])) rest
      else decode n (dbuf @ [v]) out rest)"
  by (simp add: Let_def)

lemma decode_pad1:
  "decode n [s0, s1, s2] out [padChar] = Inr (out @ quantum [s0, s1, s2])"
  by (simp add: decodeMap_padChar padChar_not_newline skip_newlines_def Let_def)

lemma decode_pad2:
  "decode n [s0, s1] out [padChar, padChar] = Inr (out @ quantum [s0, s1])"
  by (simp add: decodeMap_padChar padChar_not_newline skip_newlines_def Let_def)

lemma decode_EncodeToString: "decode n [] out (EncodeToString b) = Inr (out @ b)"
proof (induction b arbitrary: out rule: EncodeToString.induct)
  case (1 a b c rest)
  have "decode n [] out (EncodeToString (a # b # c # rest)) =
      decode n [] (out @ [a, b, c]) (EncodeToString rest)"
    by (simp only: EncodeToString.simps Let_def decode_step[OF decodeMap_enc_char] quantum4
        list.size append.simps) simp
  then show ?case using 1 by simp
next
  case (2 a b)
  show ?case
    by (simp only: EncodeToString.simps Let_def decode_step[OF decodeMap_enc_char] quantum3
        list.size append.simps decode_pad1) simp
next
  case (3 a)
  show ?case
    by (simp only: EncodeToString.simps Let_def decode_step[OF decodeMap_enc_char] quantum2
        list.size append.simps decode_pad2) simp
next
  case 4
  then show ?case by simp
qed

lemma DecodeString_EncodeToString: "DecodeString (EncodeToString b) = Inr b"
  by (simp add: DecodeString_def decode_EncodeToString)

section \<open>Malformed root hashes\<close>

lemma no_malformed_hash_in_history:
  assumes "DecodeString r = Inl off"
  shows "occurrences_of l r = []"
proof -
  have "hashToString b \<noteq> r" for b
    using DecodeString_EncodeToString[of b] assms by (auto simp: hashToString_def)
  then show ?thesis by (simp add: occurrences_of_def filter_empty_conv)
qed

text \<open>
  Claim C6, as amended. For every string that \<^verbatim>\<open>DecodeString\<close> rejects,
  \<^verbatim>\<open>GetPreviousValue\<close> and \<^verbatim>\<open>GetAllPrevious\<close> fail with that decoding error (the latter
  with a nil map) and leave the ledger as it was. \<^verbatim>\<open>EraseRootHash\<close> never decodes its
  argument: it looks the string up in the index, and since every hash in a consistent
  history is an encoding, it fails with "not present in ledger history".
\<close>

theorem malformed_root_hash:
  assumes "DecodeString r = Inl off"
  shows "GetPreviousValue D s r key = (s, [], Some (DecodeError off)) \<and>
         GetAllPrevious D s r = Inr (s, None, Some (DecodeError off)) \<and>
         (hist_inv (history s) \<longrightarrow> EraseRootHash D s r = (s, Some (NotFound r)))"
proof -
  have "erase_precheck (history s) r = Inl (NotFound r)" if "hist_inv (history s)"
    using that no_malformed_hash_in_history[OF assms] by (rule precheck_absent)
  then show ?thesis
    using assms by (simp add: GetPreviousValue_def GetAllPrevious_def EraseRootHash_def)
qed

text \<open>The string \<open>a!\<close> is rejected at offset 1; the three operations after one write.\<close>

theorem malformed_root_hash_witness:
  "DecodeString ''a!'' = Inl 1 \<and>
   GetPreviousValue simple (run simple [OpPut ''a'' ''1'']) ''a!'' ''a'' =
     (run simple [OpPut ''a'' ''1''], [], Some (DecodeError 1)) \<and>
   GetAllPrevious simple (run simple [OpPut ''a'' ''1'']) ''a!'' =
     Inr (run simple [OpPut ''a'' ''1''], None, Some (DecodeError 1)) \<and>
   EraseRootHash simple (run simple [OpPut ''a'' ''1'']) ''a!'' =
     (run simple [OpPut ''a'' ''1''], Some (NotFound ''a!''))"
proof -
  have d: "DecodeString ''a!'' = Inl 1" by (simp add: base64_eval)
  show ?thesis
    using malformed_root_hash[OF d, of simple "run simple [OpPut ''a'' ''1'']" "''a''"]
      hist_inv_run[of simple "[OpPut ''a'' ''1'']"] d
    by simp
qed

text \<open>
  Claim C6 as stated fails for \<^verbatim>\<open>EraseRootHash\<close>: on a new ledger the rejected string
  \<open>a!\<close> gives the error "not present in ledger history", not a decoding error.
\<close>

theorem erase_malformed_root_hash_counterexample:
  "DecodeString ''a!'' = Inl 1 \<and>
   snd (EraseRootHash simple (makeOld simple) ''a!'') = Some (NotFound ''a!'')"
  by (simp add: ledger_eval simple_eval base64_eval)

section \<open>Reading a whole version\<close>

lemma error_entries_Append:
  "error_entries (Some (multierror_Append err (KeyReversalMiss k))) =
     error_entries err @ [KeyReversalMiss k]"
  by (cases "(err, KeyReversalMiss k)" rule: multierror_Append.cases)
    (auto simp: error_entries_def)

lemma error_entries_add_misses:
  "error_entries (add_misses err ks) = error_entries err @ map KeyReversalMiss ks"
  unfolding add_misses_def
  by (induction ks arbitrary: err) (simp_all add: error_entries_Append)

lemma add_misses_Cons:
  "add_misses err (k # ks) = add_misses (Some (multierror_Append err (KeyReversalMiss k))) ks"
  by (simp add: add_misses_def)

lemma map_add_first_pair:
  "m(k \<mapsto> v) ++ map_of (rev ps) = m ++ map_of (rev ((k, v) # ps))"
proof -
  have "m ++ map_of (rev ((k, v) # ps)) = (m ++ [k \<mapsto> v]) ++ map_of (rev ps)"
    by (simp del: map_add_upd map_add_assoc add: map_add_assoc[symmetric])
  then show ?thesis by simp
qed

lemma reverse_loop_result:
  "hits_readable (lookups D c ks) (drop i values) \<Longrightarrow>
   reverse_loop D c ks i values result err =
     Inr (cache_after D c ks,
          result ++ map_of (rev (found_pairs (lookups D c ks) (drop i values))),
          add_misses err (missed_keys (lookups D c ks) ks))"
proof (induction ks arbitrary: c i result err)
  case Nil
  then show ?case by (simp add: add_misses_def)
next
  case (Cons k ks)
  obtain c' truekey ok where g: "cache_Get D c (copy_hash (hashLength D) k) = (c', truekey, ok)"
    by (cases "cache_Get D c (copy_hash (hashLength D) k)") auto
  have t: "tl (drop i values) = drop (Suc i) values"
    by (simp add: drop_Suc tl_drop)
  have hr: "hits_readable (lookups D c' ks) (drop (Suc i) values)"
    using Cons.prems by (simp add: g t)
  note IH = Cons.IH[OF hr]
  show ?case
  proof (cases ok)
    case True
    then have ne: "truekey \<noteq> []" and i: "i < length values"
      using Cons.prems by (simp_all add: g)
    let ?k = "string_of_bytes (trimLeadingZeroes (truekey ! 0))"
    let ?v = "string_of_bytes (trimLeadingZeroes (values ! i))"
    let ?ps = "found_pairs (lookups D c' ks) (drop (Suc i) values)"
    have "reverse_loop D c (k # ks) i values result err =
        reverse_loop D c' ks (Suc i) values (result(?k \<mapsto> ?v)) err"
      using True ne i by (simp add: g)
    also have "\<dots> = Inr (cache_after D c' ks, result(?k \<mapsto> ?v) ++ map_of (rev ?ps),
        add_misses err (missed_keys (lookups D c' ks) ks))"
      by (rule IH)
    also have "result(?k \<mapsto> ?v) ++ map_of (rev ?ps) = result ++ map_of (rev ((?k, ?v) # ?ps))"
      by (rule map_add_first_pair)
    finally show ?thesis using True i by (simp add: g t)
  next
    case False
    then show ?thesis
      by (simp add: g t IH add_misses_Cons)
  qed
qed

lemma reverse_loop_panics:
  "\<not> hits_readable (lookups D c ks) (drop i values) \<Longrightarrow>
   reverse_loop D c ks i values result err = Inl IndexOutOfRange"
proof (induction ks arbitrary: c i result err)
  case Nil
  then show ?case by simp
next
  case (Cons k ks)
  obtain c' truekey ok where g: "cache_Get D c (copy_hash (hashLength D) k) = (c', truekey, ok)"
    by (cases "cache_Get D c (copy_hash (hashLength D) k)") auto
  have t: "tl (drop i values) = drop (Suc i) values"
    by (simp add: drop_Suc tl_drop)
  show ?case
  proof (cases "ok \<and> (truekey = [] \<or> length values \<le> i)")
    case True
    then show ?thesis by (auto simp: g)
  next
    case False
    then have "\<not> hits_readable (lookups D c' ks) (drop (Suc i) values)"
      using Cons.prems by (auto simp: g t)
    then have "reverse_loop D c' ks (Suc i) values r e = Inl IndexOutOfRange" for r e
      by (rule Cons.IH)
    then show ?thesis using False by (cases ok) (auto simp: g)
  qed
qed

text \<open>
  The loop panics exactly when a key that was found cannot be read; a key that was
  missed never makes it panic.
\<close>

lemma unreadable_hit_panics:
  assumes "DecodeString r = Inr root"
    and "smt_GetAllPrevious D (tree s) root = (t, keys, values, err)"
    and "\<not> hits_readable (lookups D (keyCache s) keys) values"
  shows "GetAllPrevious D s r = Inl IndexOutOfRange"
  using reverse_loop_panics[of D "keyCache s" keys 0 "values" "Map.empty" err] assms
  by (simp add: GetAllPrevious_def)

text \<open>
  Claim C9. When the root hash decodes and every key found in the cache can be read
  (nothing is asked of the keys that are missed), \<^verbatim>\<open>GetAllPrevious\<close> returns a map and
  does not fail as a whole: the map is built from the pairs of the keys found in the
  cache, a later pair overriding an earlier one with the same key, so that the pair
  of a missed key is left out; and the entries of the returned error are those of the
  backing structure's error followed by one entry for every missed key, naming it.
\<close>

theorem reversal_miss_is_soft:
  assumes "DecodeString r = Inr root"
    and "smt_GetAllPrevious D (tree s) root = (t, keys, values, err)"
    and "hits_readable (lookups D (keyCache s) keys) values"
  shows "\<exists>s' m err'.
           GetAllPrevious D s r = Inr (s', Some m, err') \<and>
           m = map_of (rev (found_pairs (lookups D (keyCache s) keys) values)) \<and>
           error_entries err' =
             error_entries err @
             map KeyReversalMiss (missed_keys (lookups D (keyCache s) keys) keys)"
proof -
  have "reverse_loop D (keyCache s) keys 0 values Map.empty err =
      Inr (cache_after D (keyCache s) keys,
           map_of (rev (found_pairs (lookups D (keyCache s) keys) values)),
           add_misses err (missed_keys (lookups D (keyCache s) keys) keys))"
    using reverse_loop_result[of D "keyCache s" keys 0 "values" "Map.empty" err] assms(3)
    by simp
  then show ?thesis
    using assms(1,2) by (simp add: GetAllPrevious_def error_entries_add_misses)
qed

text \<open>
  Two keys, the second of which is not in the cache: the map has the first pair only
  and the error lists the second key.
\<close>

theorem reversal_miss_is_soft_witness:
  "\<exists>m err'.
     GetAllPrevious simple partly_cached ''AQ=='' = Inr (partly_cached, Some m, err') \<and>
     m ''a'' = Some ''2'' \<and> m ''b'' = None \<and> error_entries err' = [KeyReversalMiss [98]]"
proof -
  have d: "DecodeString ''AQ=='' = Inr [1]" by (simp add: base64_eval)
  have g: "smt_GetAllPrevious simple (tree partly_cached) [1] =
      (tree partly_cached, [[97], [98]], [[50], [51]], None)"
    by (simp add: partly_cached_def simple_eval)
  have l: "lookups simple (keyCache partly_cached) [[97], [98]] = [([[97]], True), ([], False)]"
    by (simp add: partly_cached_def simple_eval copy_hash_def)
  have h: "hits_readable (lookups simple (keyCache partly_cached) [[97], [98]]) [[50], [51]]"
    unfolding l by simp
  from reversal_miss_is_soft[OF d g h]
  obtain s' m err' where
    r: "GetAllPrevious simple partly_cached ''AQ=='' = Inr (s', Some m, err')"
    and m: "m = map_of (rev (found_pairs (lookups simple (keyCache partly_cached) [[97], [98]])
                [[50], [51]]))"
    and e: "error_entries err' = error_entries None @
        map KeyReversalMiss (missed_keys (lookups simple (keyCache partly_cached) [[97], [98]])
          [[97], [98]])"
    by auto
  have s: "s' = partly_cached"
    using r by (simp add: GetAllPrevious_def d g partly_cached_def simple_eval copy_hash_def
        split: sum.splits)
  have "m ''a'' = Some ''2''" "m ''b'' = None"
    unfolding m l
    by (simp_all add: string_of_bytes_def trimLeadingZeroes_def char_of_def bit_iff_odd)
  moreover have "error_entries err' = [KeyReversalMiss [98]]"
    unfolding e l by (simp add: error_entries_def)
  ultimately show ?thesis using r s by blast
qed

text \<open>
  Claim C10. When the root hash decodes and the backing structure returns an error
  beside its keys and values (every key found in the cache being readable),
  \<^verbatim>\<open>GetAllPrevious\<close> returns a map that is not nil, built from those keys and values,
  and an error whose entries start with the entries of the backing structure's error;
  without a missed key it is that error itself.
\<close>

theorem backing_error_keeps_partial_map:
  assumes "DecodeString r = Inr root"
    and "smt_GetAllPrevious D (tree s) root = (t, keys, values, Some e)"
    and "hits_readable (lookups D (keyCache s) keys) values"
  shows "\<exists>s' m err'.
           GetAllPrevious D s r = Inr (s', Some m, Some err') \<and>
           m = map_of (rev (found_pairs (lookups D (keyCache s) keys) values)) \<and>
           errors_of err' =
             errors_of e @ map KeyReversalMiss (missed_keys (lookups D (keyCache s) keys) keys) \<and>
           (missed_keys (lookups D (keyCache s) keys) keys = [] \<longrightarrow> err' = e)"
proof -
  let ?missed = "missed_keys (lookups D (keyCache s) keys) keys"
  have l: "reverse_loop D (keyCache s) keys 0 values Map.empty (Some e) =
      Inr (cache_after D (keyCache s) keys,
           map_of (rev (found_pairs (lookups D (keyCache s) keys) values)),
           add_misses (Some e) ?missed)"
    using reverse_loop_result[of D "keyCache s" keys 0 "values" "Map.empty" "Some e"] assms(3)
    by simp
  obtain err' where a: "add_misses (Some e) ?missed = Some err'"
    by (cases ?missed rule: rev_cases) (auto simp: add_misses_def)
  have "error_entries (Some err') = error_entries (Some e) @ map KeyReversalMiss ?missed"
    using error_entries_add_misses[of "Some e" ?missed] by (simp add: a)
  then have b: "errors_of err' = errors_of e @ map KeyReversalMiss ?missed"
    by (simp add: error_entries_def)
  have c: "err' = e" if "?missed = []"
    using a that by (simp add: add_misses_def)
  show ?thesis
    using assms(1,2) l a b c by (simp add: GetAllPrevious_def)
qed

text \<open>
  The backing structure returns two pairs and an error, and the second key is not in
  the cache: the map has the first pair, the error lists the backing structure's error
  and the missed key.
\<close>

theorem backing_error_keeps_partial_map_witness:
  "\<exists>m.
     GetAllPrevious simple_failing_getall partly_cached ''AQ=='' =
       Inr (partly_cached, Some m,
            Some (MultiError [BackingStoreError ''interrupted'', KeyReversalMiss [98]])) \<and>
     m ''a'' = Some ''2'' \<and> m ''b'' = None"
proof -
  let ?D = simple_failing_getall
  have d: "DecodeString ''AQ=='' = Inr [1]" by (simp add: base64_eval)
  have g: "smt_GetAllPrevious ?D (tree partly_cached) [1] =
      (tree partly_cached, [[97], [98]], [[50], [51]], Some (BackingStoreError ''interrupted''))"
    by (simp add: simple_failing_getall_def)
  have l: "lookups ?D (keyCache partly_cached) [[97], [98]] = [([[97]], True), ([], False)]"
    by (simp add: simple_failing_getall_def partly_cached_def simple_eval copy_hash_def)
  have h: "hits_readable (lookups ?D (keyCache partly_cached) [[97], [98]]) [[50], [51]]"
    unfolding l by simp
  from backing_error_keeps_partial_map[OF d g h]
  obtain s' m err' where
    r: "GetAllPrevious ?D partly_cached ''AQ=='' = Inr (s', Some m, Some err')"
    and m: "m = map_of (rev (found_pairs (lookups ?D (keyCache partly_cached) [[97], [98]])
                [[50], [51]]))"
    and e: "errors_of err' = errors_of (BackingStoreError ''interrupted'') @
        map KeyReversalMiss (missed_keys (lookups ?D (keyCache partly_cached) [[97], [98]])
          [[97], [98]])"
    by auto
  have c: "GetAllPrevious ?D partly_cached ''AQ=='' =
      Inr (partly_cached, Some [''a'' \<mapsto> ''2''],
           Some (MultiError [BackingStoreError ''interrupted'', KeyReversalMiss [98]]))"
    by (simp add: GetAllPrevious_def d simple_failing_getall_def partly_cached_def simple_eval
        copy_hash_def string_of_bytes_def trimLeadingZeroes_def char_of_def bit_iff_odd)
  have "GetAllPrevious ?D partly_cached ''AQ=='' =
      Inr (partly_cached, Some m,
           Some (MultiError [BackingStoreError ''interrupted'', KeyReversalMiss [98]]))"
    using r c by simp
  moreover have "m ''a'' = Some ''2''" "m ''b'' = None"
    unfolding m l
    by (simp_all add: string_of_bytes_def trimLeadingZeroes_def char_of_def bit_iff_odd)
  ultimately show ?thesis by blast
qed

end
